theory Spec2Isabelle
  imports Main
begin

section \<open>The Logz.io sender: data model\<close>

text \<open>
  A shallow embedding of \<^verbatim>\<open>logzio/sender.py\<close>. The sender object is a record of the
  fields that \<^verbatim>\<open>__init__\<close> sets; everything outside the object (the HTTP endpoint, the
  clock, the file system, the liveness of the main thread, the interpreter's
  \<^verbatim>\<open>sys.getsizeof\<close>) is an environment of oracles, and every call the code makes to a
  collaborator is appended to a trace.

  Durations are natural numbers of seconds: \<^verbatim>\<open>sleep\<close> raises on a negative length, and a
  negative timer is outside the model. \<^verbatim>\<open>number_of_retries\<close> is a Python integer;
  \<^verbatim>\<open>range(n)\<close> is empty for \<open>n \<le> 0\<close>.
\<close>

datatype error = TypeError | OSError

datatype response = Status int | Fault

datatype level = Debug | Info | Warning | Error

datatype message =
    IdentifiedQuit
  | Swallowing error
  | StartingToDrain nat
  | Got400
  | NotAuthorized
  | GotStatus int nat int
  | SentBulk nat
  | GotException nat int
  | CouldNotSend int
  | BackingUp string

datatype event =
    Log level message
  | CallFlush
  | Post "string list" response
  | RetrySleep nat
  | DrainSleep nat

record sender =
  token :: string
  url :: string
  logs_drain_timeout :: nat
  debug :: bool
  backup_logs :: bool
  network_timeout :: nat
  number_of_retries :: int
  retry_timeout :: nat
  queue :: "string list"
  sending_thread_alive :: bool

record world =
  posts :: nat
  backups :: nat
  files :: "string \<rightharpoonup> string"
  trace :: "event list"

record env =
  transport :: "nat \<Rightarrow> string \<Rightarrow> response"
  clock :: "nat \<Rightarrow> string"
  open_fails :: "nat \<Rightarrow> bool"
  main_alive :: "nat \<Rightarrow> bool"
  getsizeof :: "string \<Rightarrow> nat option"

definition MAX_BULK_SIZE_IN_BYTES :: nat where
  "MAX_BULK_SIZE_IN_BYTES = 1 * 1024 * 1024"

text \<open>\<^verbatim>\<open>__init__\<close>: the constructor's arguments in its order; the queue starts empty and
  the sending thread is started.\<close>

definition LogzioSender ::
  "string \<Rightarrow> string \<Rightarrow> nat \<Rightarrow> bool \<Rightarrow> bool \<Rightarrow> nat \<Rightarrow> int \<Rightarrow> nat \<Rightarrow> sender" where
  "LogzioSender tok u drain dbg backup nt retries rt =
     \<lparr> token = tok, url = u @ ''/?token='' @ tok, logs_drain_timeout = drain,
       debug = dbg, backup_logs = backup, network_timeout = nt,
       number_of_retries = retries, retry_timeout = rt,
       queue = [], sending_thread_alive = True \<rparr>"

definition log :: "level \<Rightarrow> message \<Rightarrow> world \<Rightarrow> world" where
  "log l m w = w\<lparr>trace := trace w @ [Log l m]\<rparr>"

definition emit :: "event \<Rightarrow> world \<Rightarrow> world" where
  "emit e w = w\<lparr>trace := trace w @ [e]\<rparr>"

section \<open>Batch assembly\<close>

text \<open>The size added for one entry: \<^verbatim>\<open>sys.getsizeof\<close>, or four times the length where
  the interpreter raises \<^verbatim>\<open>TypeError\<close> (\<open>None\<close> of the oracle).\<close>

definition entry_size :: "env \<Rightarrow> string \<Rightarrow> nat" where
  "entry_size E x = (case getsizeof E x of Some n \<Rightarrow> n | None \<Rightarrow> length x * 4)"

text \<open>The loop of \<^verbatim>\<open>_get_messages_up_to_max_allowed_size\<close>, with the cap as an argument:
  the queue still to read, the running size and the list built so far; it returns the
  list and what is left of the queue.\<close>

fun get_messages_loop ::
  "env \<Rightarrow> nat \<Rightarrow> string list \<Rightarrow> nat \<Rightarrow> string list \<Rightarrow> string list \<times> string list" where
  "get_messages_loop E cap [] current_size logs_list = (logs_list, [])"
| "get_messages_loop E cap (current_log # q) current_size logs_list =
     (let current_size' = current_size + entry_size E current_log;
          logs_list' = logs_list @ [current_log]
      in if current_size' \<ge> cap then (logs_list', q)
         else get_messages_loop E cap q current_size' logs_list')"

definition get_messages_up_to_max_allowed_size :: "env \<Rightarrow> sender \<Rightarrow> string list \<times> sender" where
  "get_messages_up_to_max_allowed_size E s =
     (let (logs_list, q) = get_messages_loop E MAX_BULK_SIZE_IN_BYTES (queue s) 0 []
      in (logs_list, s\<lparr>queue := q\<rparr>))"

definition total_size :: "env \<Rightarrow> string list \<Rightarrow> nat" where
  "total_size E xs = sum_list (map (entry_size E) xs)"

section \<open>Delivery of one batch\<close>

definition newline :: char where
  "newline = CHR 0x0A"

text \<open>\<^verbatim>\<open>'\n'.join(logs)\<close>.\<close>

fun join_lines :: "string list \<Rightarrow> string" where
  "join_lines [] = []"
| "join_lines [x] = x"
| "join_lines (x # y # ys) = x @ newline # join_lines (y # ys)"

text \<open>How the \<^verbatim>\<open>for current_try in range(...)\<close> loop of \<^verbatim>\<open>_flush_queue\<close> is left: by
  the \<^verbatim>\<open>break\<close> of the 200 branch, by the \<^verbatim>\<open>break\<close> of the 400 or 401 branch, or by
  running out of tries. \<^verbatim>\<open>should_backup_to_disk\<close> is still true only in the last case.\<close>

datatype outcome = Delivered | Rejected | Exhausted

definition should_backup_to_disk :: "outcome \<Rightarrow> bool" where
  "should_backup_to_disk out = (out = Exhausted)"

text \<open>The retry loop: the tries left, the value of \<^verbatim>\<open>current_try\<close>, and the world. The
  \<open>k\<close>-th POST of the run is answered by \<open>transport E k\<close> applied to the body. The event
  \<open>Post logs_list resp\<close> is one call of \<^verbatim>\<open>requests_session.post\<close> with the body
  \<^verbatim>\<open>'\n'.join(logs_list)\<close>, and what it returned or that it raised.\<close>

fun send_loop ::
  "env \<Rightarrow> sender \<Rightarrow> string list \<Rightarrow> nat \<Rightarrow> nat \<Rightarrow> world \<Rightarrow> outcome \<times> world" where
  "send_loop E s logs_list 0 current_try w = (Exhausted, w)"
| "send_loop E s logs_list (Suc left) current_try w =
     (let data = join_lines logs_list;
          resp = transport E (posts w) data;
          w1 = emit (Post logs_list resp) (w\<lparr>posts := Suc (posts w)\<rparr>)
      in case resp of
           Status status_code \<Rightarrow>
             if status_code \<noteq> 200 then
               if status_code = 400 then (Rejected, log Info Got400 w1)
               else if status_code = 401 then (Rejected, log Info NotAuthorized w1)
               else send_loop E s logs_list left (Suc current_try)
                      (emit (RetrySleep (retry_timeout s))
                        (log Info (GotStatus status_code (current_try + 1) (number_of_retries s)) w1))
             else (Delivered, log Debug (SentBulk (length logs_list)) w1)
         | Fault \<Rightarrow>
             send_loop E s logs_list left (Suc current_try)
               (emit (RetrySleep (retry_timeout s))
                 (log Warning (GotException (current_try + 1) (number_of_retries s)) w1)))"

text \<open>The whole \<^verbatim>\<open>for current_try in range(self.number_of_retries)\<close> loop for one batch.\<close>

definition deliver :: "env \<Rightarrow> sender \<Rightarrow> string list \<Rightarrow> world \<Rightarrow> outcome \<times> world" where
  "deliver E s logs_list w = send_loop E s logs_list (nat (number_of_retries s)) 0 w"

section \<open>Backup to disk\<close>

text \<open>\<^verbatim>\<open>backup_logs(logs, logger)\<close>: the \<open>k\<close>-th backup of the run reads the time stamp
  \<open>clock E k\<close>; \<^verbatim>\<open>open(..., 'a')\<close> raises when \<open>open_fails E k\<close>, and otherwise the
  joined lines are appended to what the file holds.\<close>

definition backup_file_name :: "string \<Rightarrow> string" where
  "backup_file_name timestamp = ''logzio-failures-'' @ timestamp @ ''.txt''"

definition file_content :: "world \<Rightarrow> string \<Rightarrow> string" where
  "file_content w name = (case files w name of None \<Rightarrow> [] | Some old \<Rightarrow> old)"

definition backup_logs_fn :: "env \<Rightarrow> string list \<Rightarrow> world \<Rightarrow> error \<times> world + world" where
  "backup_logs_fn E logs w =
     (let timestamp = clock E (backups w);
          w1 = log Info (BackingUp timestamp) (w\<lparr>backups := Suc (backups w)\<rparr>);
          name = backup_file_name timestamp
      in if open_fails E (backups w) then Inl (OSError, w1)
         else Inr (w1\<lparr>files := (files w1)(name \<mapsto> file_content w1 name @ join_lines logs)\<rparr>))"

section \<open>Flushing the queue\<close>

text \<open>The \<^verbatim>\<open>while not self.queue.empty()\<close> loop of \<^verbatim>\<open>_flush_queue\<close>: a batch is taken off
  the queue, sent, and backed up when the tries ran out and \<^verbatim>\<open>backup_logs\<close> is set. An
  exception of \<^verbatim>\<open>backup_logs\<close> is not caught here: it ends the loop, with the sender and
  the world as they are then. The queue gets shorter with every batch, so the loop ends.\<close>

function flush_loop :: "env \<Rightarrow> sender \<Rightarrow> world \<Rightarrow> error \<times> sender \<times> world + sender \<times> world" where
  "flush_loop E s w =
     (if queue s = [] then Inr (s, w)
      else case get_messages_up_to_max_allowed_size E s of (logs_list, s1) \<Rightarrow>
        (case deliver E s1 logs_list (log Debug (StartingToDrain (length logs_list)) w) of
           (out, w2) \<Rightarrow>
             if should_backup_to_disk out \<and> backup_logs s1 then
               (case backup_logs_fn E logs_list
                       (log Error (CouldNotSend (number_of_retries s1)) w2) of
                  Inl (e, w3) \<Rightarrow> Inl (e, s1, w3)
                | Inr w3 \<Rightarrow> flush_loop E s1 w3)
             else flush_loop E s1 w2))"
  by pat_completeness auto
termination
proof (relation "measure (\<lambda>(E, s, w). length (queue s))")
  have shorter: "length (snd (get_messages_loop E cap q c acc)) < length q"
    if "q \<noteq> []" for E cap q c acc
    using that
  proof (induction q arbitrary: c acc)
    case Nil
    then show ?case by simp
  next
    case (Cons x q)
    show ?case
    proof (cases q)
      case Nil
      then show ?thesis by (simp add: Let_def)
    next
      case (Cons y ys)
      then have "length (snd (get_messages_loop E cap q c' acc')) < length q" for c' acc'
        using Cons.IH by simp
      then show ?thesis
        by (simp add: Let_def less_SucI)
    qed
  qed
  have dequeue: "length (queue s1) < length (queue s)"
    if "queue s \<noteq> []" and "get_messages_up_to_max_allowed_size E s = (logs_list, s1)"
    for E s logs_list s1
    using that shorter [of "queue s" E MAX_BULK_SIZE_IN_BYTES 0 "[]"]
    by (auto simp: get_messages_up_to_max_allowed_size_def split: prod.splits)
  show "wf (measure (\<lambda>(E, s, w). length (queue s)))"
    by simp
  show "((E, s1, w3), E, s, w) \<in> measure (\<lambda>(E, s, w). length (queue s))"
    if "queue s \<noteq> []" and "(logs_list, s1) = get_messages_up_to_max_allowed_size E s"
    for E s logs_list s1 and w w3 :: world
    using dequeue [of s E logs_list s1] that by simp
  then show "((E, s1, w2), E, s, w) \<in> measure (\<lambda>(E, s, w). length (queue s))"
    if "queue s \<noteq> []" and "(logs_list, s1) = get_messages_up_to_max_allowed_size E s"
    for E s logs_list s1 and w w2 :: world
    using that by simp
qed

declare flush_loop.simps [simp del]

text \<open>\<^verbatim>\<open>_flush_queue\<close>, with its call recorded in the trace, and the public \<^verbatim>\<open>flush\<close>,
  which only calls it.\<close>

definition flush_queue :: "env \<Rightarrow> sender \<Rightarrow> world \<Rightarrow> error \<times> sender \<times> world + sender \<times> world" where
  "flush_queue E s w = flush_loop E s (emit CallFlush w)"

definition flush :: "env \<Rightarrow> sender \<Rightarrow> world \<Rightarrow> error \<times> sender \<times> world + sender \<times> world" where
  "flush E s w = flush_queue E s w"

section \<open>The drain loop of the sending thread\<close>

text \<open>One pass of the body of \<^verbatim>\<open>_drain_queue\<close>'s \<^verbatim>\<open>try\<close> statement: an exception of
  \<^verbatim>\<open>_flush_queue\<close> is logged at debug level and swallowed.\<close>

definition flush_swallowing :: "env \<Rightarrow> sender \<Rightarrow> world \<Rightarrow> sender \<times> world" where
  "flush_swallowing E s w =
     (case flush_queue E s w of
        Inr (s', w') \<Rightarrow> (s', w')
      | Inl (e, s', w') \<Rightarrow> (s', log Debug (Swallowing e) w'))"

text \<open>\<^verbatim>\<open>_drain_queue\<close>. The loop runs for as long as the main thread lives, so it is
  given fuel: \<open>None\<close> is a loop still running when the fuel is spent. The \<open>i\<close>-th
  iteration reads \<open>main_alive E i\<close>. When the loop ends, so does the thread.\<close>

fun drain_queue :: "nat \<Rightarrow> env \<Rightarrow> nat \<Rightarrow> sender \<Rightarrow> world \<Rightarrow> (sender \<times> world) option" where
  "drain_queue 0 E i s w = None"
| "drain_queue (Suc fuel) E i s w =
     (let last_try = \<not> main_alive E i;
          w1 = (if last_try then log Debug IdentifiedQuit w else w)
      in case flush_swallowing E s w1 of (s2, w2) \<Rightarrow>
           if \<not> last_try
           then drain_queue fuel E (Suc i) s2 (emit (DrainSleep (logs_drain_timeout s2)) w2)
           else Some (s2\<lparr>sending_thread_alive := False\<rparr>, w2))"

section \<open>Serialising and enqueueing a message\<close>

text \<open>The values handed to \<^verbatim>\<open>append\<close>: the fragment of Python objects made of
  \<^verbatim>\<open>None\<close>, booleans, integers, strings (of code points below 256), lists, dictionaries
  with string keys, \<^verbatim>\<open>datetime\<close> objects (carrying their \<^verbatim>\<open>isoformat()\<close>) and objects of
  any other class.\<close>

datatype pyobj =
    PyNone
  | PyBool bool
  | PyInt int
  | PyStr string
  | PyList "pyobj list"
  | PyDict "(string \<times> pyobj) list"
  | PyDatetime string
  | PyOther

text \<open>\<^verbatim>\<open>CustomJSONEncoder.default\<close>: the ISO format of a \<^verbatim>\<open>datetime\<close>; for anything else
  the base class's \<^verbatim>\<open>default\<close>, which raises \<^verbatim>\<open>TypeError\<close>.\<close>

fun default :: "pyobj \<Rightarrow> error + pyobj" where
  "default (PyDatetime isoformat) = Inr (PyStr isoformat)"
| "default o' = Inl TypeError"

definition hex_digit :: "nat \<Rightarrow> char" where
  "hex_digit n = ''0123456789abcdef'' ! (n mod 16)"

definition escape_char :: "char \<Rightarrow> string" where
  "escape_char c =
     (if c = CHR 0x5C then [CHR 0x5C, CHR 0x5C]
      else if c = CHR 0x22 then [CHR 0x5C, CHR 0x22]
      else if c = CHR 0x08 then [CHR 0x5C, CHR ''b'']
      else if c = CHR 0x0C then [CHR 0x5C, CHR ''f'']
      else if c = CHR 0x0A then [CHR 0x5C, CHR ''n'']
      else if c = CHR 0x0D then [CHR 0x5C, CHR ''r'']
      else if c = CHR 0x09 then [CHR 0x5C, CHR ''t'']
      else if (of_char c :: nat) < 0x20 \<or> (of_char c :: nat) > 0x7E
        then [CHR 0x5C, CHR ''u'', CHR ''0'', CHR ''0'',
              hex_digit (of_char c div 16), hex_digit (of_char c)]
      else [c])"

definition encode_str :: "string \<Rightarrow> string" where
  "encode_str x = CHR 0x22 # concat (map escape_char x) @ [CHR 0x22]"

fun digits :: "nat \<Rightarrow> string" where
  "digits n = (if n < 10 then [hex_digit n] else digits (n div 10) @ [hex_digit (n mod 10)])"

definition encode_int :: "int \<Rightarrow> string" where
  "encode_int i = (if i < 0 then CHR ''-'' # digits (nat (- i)) else digits (nat i))"

text \<open>\<^verbatim>\<open>sep.join(xs)\<close>.\<close>

fun join_sep :: "string \<Rightarrow> string list \<Rightarrow> string" where
  "join_sep sep [] = []"
| "join_sep sep [x] = x"
| "join_sep sep (x # y # ys) = x @ sep @ join_sep sep (y # ys)"

text \<open>\<^verbatim>\<open>json.dumps(o, cls=CustomJSONEncoder)\<close> with the library's default separators:
  an object the encoder has no rule for goes through \<open>default\<close>, whose result (here
  always a string) is encoded in its place.\<close>

definition encode_default :: "pyobj \<Rightarrow> error + string" where
  "encode_default o' =
     (case default o' of
        Inl e \<Rightarrow> Inl e
      | Inr v \<Rightarrow> (case v of PyStr x \<Rightarrow> Inr (encode_str x) | _ \<Rightarrow> Inl TypeError))"

fun dumps :: "pyobj \<Rightarrow> error + string"
  and dumps_list :: "pyobj list \<Rightarrow> error + string list"
  and dumps_items :: "(string \<times> pyobj) list \<Rightarrow> error + string list" where
  "dumps PyNone = Inr ''null''"
| "dumps (PyBool b) = Inr (if b then ''true'' else ''false'')"
| "dumps (PyInt i) = Inr (encode_int i)"
| "dumps (PyStr x) = Inr (encode_str x)"
| "dumps (PyList xs) =
     (case dumps_list xs of Inl e \<Rightarrow> Inl e
      | Inr ys \<Rightarrow> Inr (''['' @ join_sep '', '' ys @ '']''))"
| "dumps (PyDict kvs) =
     (case dumps_items kvs of Inl e \<Rightarrow> Inl e
      | Inr ys \<Rightarrow> Inr (''{'' @ join_sep '', '' ys @ ''}''))"
| "dumps (PyDatetime isoformat) = encode_default (PyDatetime isoformat)"
| "dumps PyOther = encode_default PyOther"
| "dumps_list [] = Inr []"
| "dumps_list (x # xs) =
     (case dumps x of Inl e \<Rightarrow> Inl e
      | Inr y \<Rightarrow> (case dumps_list xs of Inl e \<Rightarrow> Inl e | Inr ys \<Rightarrow> Inr (y # ys)))"
| "dumps_items [] = Inr []"
| "dumps_items ((k, v) # kvs) =
     (case dumps v of Inl e \<Rightarrow> Inl e
      | Inr y \<Rightarrow> (case dumps_items kvs of Inl e \<Rightarrow> Inl e
                  | Inr ys \<Rightarrow> Inr ((encode_str k @ '': '' @ y) # ys)))"

text \<open>\<^verbatim>\<open>append\<close>: the sending thread is started again if it is dead, then the
  serialised message is put at the back of the queue. An exception of \<^verbatim>\<open>json.dumps\<close>
  leaves the method before the \<^verbatim>\<open>put\<close>.\<close>

definition append :: "pyobj \<Rightarrow> sender \<Rightarrow> error \<times> sender + sender" where
  "append logs_message s =
     (let s1 = (if \<not> sending_thread_alive s then s\<lparr>sending_thread_alive := True\<rparr> else s)
      in case dumps logs_message of
           Inl e \<Rightarrow> Inl (e, s1)
         | Inr entry \<Rightarrow> Inr (s1\<lparr>queue := queue s1 @ [entry]\<rparr>))"

section \<open>Runs of a producer and the worker\<close>

text \<open>A run interleaves the producer's calls of \<^verbatim>\<open>append\<close> and \<^verbatim>\<open>flush\<close> with cycles of
  the sending thread. A call that raises leaves the state it had reached, and the run
  goes on (the caller handles the exception).\<close>

datatype op = Append pyobj | Flush | WorkerCycle

fun step :: "env \<Rightarrow> op \<Rightarrow> sender \<times> world \<Rightarrow> sender \<times> world" where
  "step E (Append m) (s, w) = (case append m s of Inl (e, s') \<Rightarrow> (s', w) | Inr s' \<Rightarrow> (s', w))"
| "step E Flush (s, w) = (case flush E s w of Inl (e, s', w') \<Rightarrow> (s', w') | Inr (s', w') \<Rightarrow> (s', w'))"
| "step E WorkerCycle (s, w) = flush_swallowing E s w"

fun run :: "env \<Rightarrow> op list \<Rightarrow> sender \<times> world \<Rightarrow> sender \<times> world" where
  "run E [] sw = sw"
| "run E (x # ops) sw = run E ops (step E x sw)"

text \<open>The entries a run puts into the queue, in order.\<close>

fun enqueued :: "op list \<Rightarrow> string list" where
  "enqueued [] = []"
| "enqueued (Append m # ops) = (case dumps m of Inl e \<Rightarrow> enqueued ops | Inr entry \<Rightarrow> entry # enqueued ops)"
| "enqueued (x # ops) = enqueued ops"

section \<open>Reading a trace\<close>

fun is_post :: "event \<Rightarrow> bool" where
  "is_post (Post logs_list resp) = True"
| "is_post e = False"

fun is_retry_sleep :: "event \<Rightarrow> bool" where
  "is_retry_sleep (RetrySleep t) = True"
| "is_retry_sleep e = False"

fun is_drain_sleep :: "event \<Rightarrow> bool" where
  "is_drain_sleep (DrainSleep t) = True"
| "is_drain_sleep e = False"

definition count_posts :: "event list \<Rightarrow> nat" where
  "count_posts tr = length (filter is_post tr)"

definition retry_sleeps :: "event list \<Rightarrow> event list" where
  "retry_sleeps tr = filter is_retry_sleep tr"

definition count_flushes :: "event list \<Rightarrow> nat" where
  "count_flushes tr = length (filter (\<lambda>e. e = CallFlush) tr)"

definition count_drain_sleeps :: "event list \<Rightarrow> nat" where
  "count_drain_sleeps tr = length (filter is_drain_sleep tr)"

text \<open>The entries of the batches that a POST answered with status 200 carried, in the
  order of the POSTs.\<close>

fun delivered :: "event list \<Rightarrow> string list" where
  "delivered [] = []"
| "delivered (Post logs_list (Status c) # tr) = (if c = 200 then logs_list else []) @ delivered tr"
| "delivered (e # tr) = delivered tr"

text \<open>A response that the retry loop answers with another try.\<close>

fun transient :: "response \<Rightarrow> bool" where
  "transient Fault = True"
| "transient (Status c) = (c \<noteq> 200 \<and> c \<noteq> 400 \<and> c \<noteq> 401)"

text \<open>The world at the start of a run.\<close>

definition world0 :: world where
  "world0 = \<lparr> posts = 0, backups = 0, files = Map.empty, trace = [] \<rparr>"

text \<open>The events a computation adds to the trace, from the world before and after.\<close>

definition events_since :: "world \<Rightarrow> world \<Rightarrow> event list" where
  "events_since w w' = drop (length (trace w)) (trace w')"

text \<open>The world that a call of \<^verbatim>\<open>_flush_queue\<close> leaves, whether it returned or
  raised.\<close>

definition result_world :: "error \<times> sender \<times> world + sender \<times> world \<Rightarrow> world" where
  "result_world r = (case r of Inl (e, s, w) \<Rightarrow> w | Inr (s, w) \<Rightarrow> w)"

text \<open>The lines of a text file: \<^verbatim>\<open>content.split('\n')\<close>.\<close>

fun split_lines :: "string \<Rightarrow> string list" where
  "split_lines [] = [[]]"
| "split_lines (c # cs) =
     (if c = newline then [] # split_lines cs
      else (case split_lines cs of l # ls \<Rightarrow> (c # l) # ls | [] \<Rightarrow> [[c]]))"

section \<open>Concrete scenarios\<close>

text \<open>An endpoint that answers every POST with status 500, a file system that opens
  every file, a main thread that has ended, and CPython's size of an ASCII string.\<close>

definition env_500 :: env where
  "env_500 = \<lparr> transport = (\<lambda>k d. Status 500), clock = (\<lambda>k. ''01012026-000000''),
     open_fails = (\<lambda>k. False), main_alive = (\<lambda>i. False),
     getsizeof = (\<lambda>x. Some (49 + length x)) \<rparr>"

text \<open>The same failing endpoint, and a directory in which no file can be opened.\<close>

definition env_500_no_disk :: env where
  "env_500_no_disk = env_500\<lparr>open_fails := (\<lambda>k. True)\<rparr>"

text \<open>An endpoint that answers the first POST with status 400.\<close>

definition env_400 :: env where
  "env_400 = env_500\<lparr>transport := (\<lambda>k d. if k = 0 then Status 400 else Status 500)\<rparr>"

definition sender_ab :: sender where
  "sender_ab = (LogzioSender ''tok'' ''https://listener.logz.io:8071'' 5 False True 10 4 2)
     \<lparr>queue := [''a'', ''b'']\<rparr>"

text \<open>What holds of a call of \<^verbatim>\<open>_flush_queue\<close> that raised, started with the sender \<open>s\<close>:
  the exception is the \<^verbatim>\<open>OSError\<close> of a backup file that would not open, the sender's
  configuration is unchanged, and the queue has lost the batches handled so far and the
  batch whose backup failed.\<close>

definition raised_ok :: "env \<Rightarrow> sender \<Rightarrow> error \<times> sender \<times> world + sender \<times> world \<Rightarrow> bool" where
  "raised_ok E s r = (case r of Inr x \<Rightarrow> True
     | Inl (e, s', w') \<Rightarrow> e = OSError \<and> s'\<lparr>queue := queue s\<rparr> = s
        \<and> (\<exists>done batch. queue s = done @ batch @ queue s' \<and> batch \<noteq> [])
        \<and> 0 < backups w' \<and> open_fails E (backups w' - 1)
        \<and> last (trace w') = Log Info (BackingUp (clock E (backups w' - 1))))"

text \<open>What holds of a call of \<^verbatim>\<open>_flush_queue\<close> that delivered everything: it returned,
  the queue is empty, and the trace has gained the queue's entries as delivered.\<close>

definition all_delivered :: "sender \<Rightarrow> world \<Rightarrow> error \<times> sender \<times> world + sender \<times> world \<Rightarrow> bool" where
  "all_delivered s w r = (case r of Inl x \<Rightarrow> False
     | Inr (s', w') \<Rightarrow> s' = s\<lparr>queue := []\<rparr>
         \<and> delivered (trace w') = delivered (trace w) @ queue s)"

text \<open>An endpoint that fails every other POST, and a run of a producer and the worker
  against it: the third message cannot be serialised.\<close>

definition env_flaky :: env where
  "env_flaky = env_500\<lparr>transport := (\<lambda>k d. if even k then Status 503 else Status 200)\<rparr>"

definition ops_example :: "op list" where
  "ops_example =
     [Append (PyInt 1), Append (PyInt 2), WorkerCycle, Append PyOther, Append (PyInt 3), Flush]"

text \<open>A sender with a single try and no pause, holding the queue \<open>q\<close>.\<close>

definition sender_fast :: "string list \<Rightarrow> sender" where
  "sender_fast q = (LogzioSender ''tok'' ''https://listener.logz.io:8071'' 5 False True 10 1 0)
     \<lparr>queue := q\<rparr>"

section \<open>Properties of batch assembly\<close>

lemma loop_prefix: "get_messages_loop E cap q c acc = (b, r) \<Longrightarrow> b @ r = acc @ q"
  by (induction q arbitrary: c acc) (auto simp: Let_def split: if_splits)

lemma total_size_butlast: "total_size E (butlast xs) \<le> total_size E xs"
  by (induction xs) (auto simp: total_size_def)

lemma loop_size:
  "get_messages_loop E cap q c acc = (b, r) \<Longrightarrow> c = total_size E acc \<Longrightarrow> c < cap \<Longrightarrow>
   total_size E (butlast b) < cap"
proof (induction q arbitrary: c acc)
  case Nil
  then have "b = acc" by simp
  with Nil total_size_butlast [of E acc] show ?case by simp
next
  case (Cons x q)
  show ?case
  proof (cases "cap \<le> c + entry_size E x")
    case True
    with Cons.prems have "b = acc @ [x]" by (simp add: Let_def)
    with Cons.prems show ?thesis by simp
  next
    case False
    with Cons.prems have "get_messages_loop E cap q (c + entry_size E x) (acc @ [x]) = (b, r)"
      by (simp add: Let_def)
    moreover have "c + entry_size E x = total_size E (acc @ [x])"
      using Cons.prems by (simp add: total_size_def)
    ultimately show ?thesis using False Cons.IH by simp
  qed
qed

lemma loop_extends:
  "get_messages_loop E cap q c acc = (b, r) \<Longrightarrow> \<exists>ys. b = acc @ ys \<and> (q \<noteq> [] \<longrightarrow> ys \<noteq> [])"
proof (induction q arbitrary: c acc)
  case Nil
  then show ?case by simp
next
  case (Cons x q)
  show ?case
  proof (cases "cap \<le> c + entry_size E x")
    case True
    with Cons.prems show ?thesis by (auto simp add: Let_def)
  next
    case False
    with Cons.prems have "get_messages_loop E cap q (c + entry_size E x) (acc @ [x]) = (b, r)"
      by (simp add: Let_def)
    from Cons.IH [OF this] show ?thesis by auto
  qed
qed

lemma loop_stops:
  "get_messages_loop E cap q c acc = (b, r) \<Longrightarrow> c = total_size E acc \<Longrightarrow>
   r = [] \<or> cap \<le> total_size E b"
proof (induction q arbitrary: c acc)
  case Nil
  then show ?case by simp
next
  case (Cons x q)
  show ?case
  proof (cases "cap \<le> c + entry_size E x")
    case True
    with Cons.prems show ?thesis by (auto simp add: Let_def total_size_def)
  next
    case False
    with Cons.prems have "get_messages_loop E cap q (c + entry_size E x) (acc @ [x]) = (b, r)"
      by (simp add: Let_def)
    moreover have "c + entry_size E x = total_size E (acc @ [x])"
      using Cons.prems by (simp add: total_size_def)
    ultimately show ?thesis using Cons.IH by simp
  qed
qed

lemma get_messages_split:
  "\<exists>b r. get_messages_up_to_max_allowed_size E s = (b, s\<lparr>queue := r\<rparr>)
     \<and> get_messages_loop E MAX_BULK_SIZE_IN_BYTES (queue s) 0 [] = (b, r)"
  by (cases "get_messages_loop E MAX_BULK_SIZE_IN_BYTES (queue s) 0 []")
     (simp add: get_messages_up_to_max_allowed_size_def)

text \<open>
  Claim C3. The batch that \<^verbatim>\<open>_get_messages_up_to_max_allowed_size\<close> assembles under the
  cap \<open>MAX_BULK_SIZE_IN_BYTES\<close>: the estimated sizes of all its entries but the last sum
  to less than the cap; it is not empty when the queue was not; it is a prefix of the
  queue, the rest staying queued in order; and assembly stopped because the queue ran
  out or because the entry just included brought the total to the cap.
\<close>

theorem size_bounding:
  "total_size E (butlast (fst (get_messages_up_to_max_allowed_size E s))) < MAX_BULK_SIZE_IN_BYTES
   \<and> (queue s \<noteq> [] \<longrightarrow> fst (get_messages_up_to_max_allowed_size E s) \<noteq> [])
   \<and> fst (get_messages_up_to_max_allowed_size E s)
       @ queue (snd (get_messages_up_to_max_allowed_size E s)) = queue s
   \<and> (queue (snd (get_messages_up_to_max_allowed_size E s)) = []
        \<or> MAX_BULK_SIZE_IN_BYTES \<le> total_size E (fst (get_messages_up_to_max_allowed_size E s)))"
proof -
  obtain b r where g: "get_messages_up_to_max_allowed_size E s = (b, s\<lparr>queue := r\<rparr>)"
    and br: "get_messages_loop E MAX_BULK_SIZE_IN_BYTES (queue s) 0 [] = (b, r)"
    using get_messages_split by blast
  have pos: "0 < MAX_BULK_SIZE_IN_BYTES" by (simp add: MAX_BULK_SIZE_IN_BYTES_def)
  have "total_size E (butlast b) < MAX_BULK_SIZE_IN_BYTES"
    using loop_size [OF br] pos by (simp add: total_size_def)
  moreover have "queue s \<noteq> [] \<longrightarrow> b \<noteq> []"
    using loop_extends [OF br] by auto
  moreover have "b @ r = queue s"
    using loop_prefix [OF br] by simp
  moreover have "r = [] \<or> MAX_BULK_SIZE_IN_BYTES \<le> total_size E b"
    using loop_stops [OF br] by (simp add: total_size_def)
  ultimately show ?thesis by (simp add: g)
qed

theorem size_bounding_witness:
  "queue sender_ab \<noteq> []
   \<and> fst (get_messages_up_to_max_allowed_size env_500 sender_ab) \<noteq> []
   \<and> total_size env_500 (butlast (fst (get_messages_up_to_max_allowed_size env_500 sender_ab)))
       < MAX_BULK_SIZE_IN_BYTES"
  using size_bounding [of env_500 sender_ab]
  by (simp add: sender_ab_def LogzioSender_def)

section \<open>Properties of the retry loop\<close>

lemma events_since_append: "trace w' = trace w @ ev \<Longrightarrow> events_since w w' = ev"
  by (simp add: events_since_def)

text \<open>When each of the \<open>n\<close> tries left meets a transient failure, the loop uses them
  all: \<open>n\<close> POSTs, each followed by a log line and a sleep of \<^verbatim>\<open>retry_timeout\<close>.\<close>

lemma send_loop_transient:
  "\<forall>k<n. transient (transport E (posts w + k) (join_lines logs)) \<Longrightarrow>
   \<exists>w' ev. send_loop E s logs n cur w = (Exhausted, w') \<and> trace w' = trace w @ ev
     \<and> count_posts ev = n \<and> retry_sleeps ev = replicate n (RetrySleep (retry_timeout s))
     \<and> (if n = 0 then ev = [] else last ev = RetrySleep (retry_timeout s))
     \<and> posts w' = posts w + n \<and> files w' = files w \<and> backups w' = backups w"
proof (induction n arbitrary: cur w)
  case 0
  then show ?case by (simp add: count_posts_def retry_sleeps_def)
next
  case (Suc n)
  let ?data = "join_lines logs"
  let ?resp = "transport E (posts w) ?data"
  let ?w1 = "emit (Post logs ?resp) (w\<lparr>posts := Suc (posts w)\<rparr>)"
  have tr: "transient ?resp" using Suc.prems by (metis add.right_neutral zero_less_Suc)
  obtain m l where step: "send_loop E s logs (Suc n) cur w =
      send_loop E s logs n (Suc cur) (emit (RetrySleep (retry_timeout s)) (log l m ?w1))"
    using tr by (cases ?resp) (auto simp: Let_def)
  let ?w2 = "emit (RetrySleep (retry_timeout s)) (log l m ?w1)"
  have p2: "posts ?w2 = Suc (posts w)" by (simp add: emit_def log_def)
  have "\<forall>k<n. transient (transport E (posts ?w2 + k) ?data)"
    using Suc.prems p2 by (metis add_Suc_shift Suc_less_eq)
  from Suc.IH [OF this, of "Suc cur"] obtain w' ev where
    r: "send_loop E s logs n (Suc cur) ?w2 = (Exhausted, w')" "trace w' = trace ?w2 @ ev"
       "count_posts ev = n" "retry_sleeps ev = replicate n (RetrySleep (retry_timeout s))"
       "if n = 0 then ev = [] else last ev = RetrySleep (retry_timeout s)"
       "posts w' = posts ?w2 + n" "files w' = files ?w2" "backups w' = backups ?w2"
    by auto
  let ?ev = "[Post logs ?resp, Log l m, RetrySleep (retry_timeout s)] @ ev"
  have "trace w' = trace w @ ?ev" using r(2) by (simp add: emit_def log_def)
  moreover have "count_posts ?ev = Suc n" using r(3) by (simp add: count_posts_def)
  moreover have "retry_sleeps ?ev = replicate (Suc n) (RetrySleep (retry_timeout s))"
    using r(4) by (simp add: retry_sleeps_def)
  moreover have "last ?ev = RetrySleep (retry_timeout s)"
  proof (cases n)
    case 0
    with r(5) show ?thesis by simp
  next
    case (Suc k)
    then have "ev \<noteq> []" using r(3) by (auto simp: count_posts_def)
    then show ?thesis using r(5) Suc by simp
  qed
  moreover have "posts w' = posts w + Suc n" using r(6) p2 by simp
  moreover have "files w' = files w" "backups w' = backups w"
    using r(7,8) by (simp_all add: emit_def log_def)
  ultimately show ?case using step r(1) by (metis nat.distinct(1))
qed

text \<open>
  Claim C1. For every batch and every \<^verbatim>\<open>number_of_retries\<close> of at least one, when each
  attempt of the delivery meets a status other than 200, 400 and 401 or an exception
  of the transport, the delivery makes exactly \<^verbatim>\<open>number_of_retries\<close> POSTs and leaves
  the loop exhausted, \<^verbatim>\<open>should_backup_to_disk\<close> still set.
\<close>

theorem retry_exhaustion:
  assumes "1 \<le> number_of_retries s"
    and "\<forall>k < nat (number_of_retries s). transient (transport E (posts w + k) (join_lines logs))"
  shows "fst (deliver E s logs w) = Exhausted
     \<and> should_backup_to_disk (fst (deliver E s logs w))
     \<and> int (count_posts (events_since w (snd (deliver E s logs w)))) = number_of_retries s"
proof -
  from send_loop_transient [OF assms(2), of s 0] obtain w' ev where
    r: "send_loop E s logs (nat (number_of_retries s)) 0 w = (Exhausted, w')"
       "trace w' = trace w @ ev" "count_posts ev = nat (number_of_retries s)"
    by auto
  then show ?thesis using assms(1)
    by (simp add: deliver_def should_backup_to_disk_def events_since_append)
qed

theorem retry_exhaustion_witness:
  "fst (deliver env_500 sender_ab [''a'', ''b''] world0) = Exhausted
   \<and> count_posts (events_since world0 (snd (deliver env_500 sender_ab [''a'', ''b''] world0))) = 4"
  using retry_exhaustion [of sender_ab env_500 world0 "[''a'', ''b'']"]
  by (simp add: sender_ab_def LogzioSender_def env_500_def)

text \<open>
  Claim C9, as stated, fails: with four tries that all fail, the delivery sleeps four
  times, not three. The sleep follows every failed attempt, the last one too.
\<close>

theorem sleeps_between_attempts_counterexample:
  "length (retry_sleeps (events_since world0
      (snd (deliver env_500 sender_ab [''a'', ''b''] world0)))) = 4
   \<and> number_of_retries sender_ab - 1 = 3"
  by (simp add: deliver_def sender_ab_def LogzioSender_def env_500_def world0_def Let_def
      emit_def log_def events_since_def retry_sleeps_def eval_nat_numeral)

text \<open>
  Claim C9, amended. During the delivery of a batch whose every attempt fails
  transiently, a sleep of the fixed \<^verbatim>\<open>retry_timeout\<close> follows every failed attempt,
  the final one included: exactly \<^verbatim>\<open>number_of_retries\<close> sleeps occur, each of the
  configured duration, and the loop is left exhausted right after the last sleep.
\<close>

theorem sleep_after_every_failed_attempt:
  assumes "1 \<le> number_of_retries s"
    and "\<forall>k < nat (number_of_retries s). transient (transport E (posts w + k) (join_lines logs))"
  shows "fst (deliver E s logs w) = Exhausted
     \<and> retry_sleeps (events_since w (snd (deliver E s logs w)))
         = replicate (nat (number_of_retries s)) (RetrySleep (retry_timeout s))
     \<and> last (trace (snd (deliver E s logs w))) = RetrySleep (retry_timeout s)"
proof -
  from send_loop_transient [OF assms(2), of s 0] obtain w' ev where
    r: "send_loop E s logs (nat (number_of_retries s)) 0 w = (Exhausted, w')"
       "trace w' = trace w @ ev"
       "retry_sleeps ev = replicate (nat (number_of_retries s)) (RetrySleep (retry_timeout s))"
       "if nat (number_of_retries s) = 0 then ev = [] else last ev = RetrySleep (retry_timeout s)"
    by auto
  have "nat (number_of_retries s) \<noteq> 0" using assms(1) by simp
  with r(4) have l: "last ev = RetrySleep (retry_timeout s)" and ne: "ev \<noteq> []"
    using r(3) by (auto simp: retry_sleeps_def)
  show ?thesis using r l ne
    by (simp add: deliver_def events_since_append)
qed

theorem sleep_after_every_failed_attempt_witness:
  "retry_sleeps (events_since world0 (snd (deliver env_500 sender_ab [''a'', ''b''] world0)))
     = [RetrySleep 2, RetrySleep 2, RetrySleep 2, RetrySleep 2]
   \<and> last (trace (snd (deliver env_500 sender_ab [''a'', ''b''] world0))) = RetrySleep 2"
  using sleep_after_every_failed_attempt [of sender_ab env_500 world0 "[''a'', ''b'']"]
  by (simp add: sender_ab_def LogzioSender_def env_500_def eval_nat_numeral)

lemma deliver_rejects:
  assumes "1 \<le> number_of_retries s"
    and "transport E (posts w) (join_lines logs) = Status 400
         \<or> transport E (posts w) (join_lines logs) = Status 401"
  shows "\<exists>w'. deliver E s logs w = (Rejected, w')
     \<and> count_posts (events_since w w') = 1 \<and> retry_sleeps (events_since w w') = []
     \<and> files w' = files w \<and> backups w' = backups w"
proof -
  obtain n where n: "nat (number_of_retries s) = Suc n"
    using assms(1) by (cases "nat (number_of_retries s)") auto
  from assms(2) show ?thesis
    by (auto simp: deliver_def n Let_def emit_def log_def events_since_def count_posts_def
        retry_sleeps_def)
qed

text \<open>
  Claim C2. For every batch, when the first attempt is answered with status 400 or
  401, exactly one POST is made, the loop is left by the \<^verbatim>\<open>break\<close> of that branch with
  \<^verbatim>\<open>should_backup_to_disk\<close> cleared, no file is written and no backup is started; and
  \<^verbatim>\<open>_flush_queue\<close>, whatever \<^verbatim>\<open>backup_logs\<close> is set to, goes straight on to the rest of
  the queue.
\<close>

theorem no_retry_on_400_401:
  assumes "1 \<le> number_of_retries s"
    and "transport E (posts w) (join_lines logs) = Status 400
         \<or> transport E (posts w) (join_lines logs) = Status 401"
  shows "fst (deliver E s logs w) = Rejected
     \<and> count_posts (events_since w (snd (deliver E s logs w))) = 1
     \<and> \<not> should_backup_to_disk (fst (deliver E s logs w))
     \<and> files (snd (deliver E s logs w)) = files w
     \<and> backups (snd (deliver E s logs w)) = backups w
     \<and> (\<forall>s0 w0. queue s0 \<noteq> [] \<and> get_messages_up_to_max_allowed_size E s0 = (logs, s)
           \<and> log Debug (StartingToDrain (length logs)) w0 = w
         \<longrightarrow> flush_loop E s0 w0 = flush_loop E s (snd (deliver E s logs w)))"
proof -
  from deliver_rejects [OF assms] obtain w' where
    d: "deliver E s logs w = (Rejected, w')" "count_posts (events_since w w') = 1"
       "files w' = files w" "backups w' = backups w"
    by blast
  have "flush_loop E s0 w0 = flush_loop E s w'"
    if "queue s0 \<noteq> []" "get_messages_up_to_max_allowed_size E s0 = (logs, s)"
       "log Debug (StartingToDrain (length logs)) w0 = w" for s0 w0
    using that d(1)
    by (subst flush_loop.simps) (simp add: should_backup_to_disk_def)
  then show ?thesis using d by (simp add: should_backup_to_disk_def)
qed

theorem no_retry_on_400_401_witness:
  "fst (deliver env_400 (sender_ab\<lparr>queue := []\<rparr>) [''a'', ''b'']
        (log Debug (StartingToDrain 2) world0)) = Rejected
   \<and> count_posts (events_since (log Debug (StartingToDrain 2) world0)
        (snd (deliver env_400 (sender_ab\<lparr>queue := []\<rparr>) [''a'', ''b'']
           (log Debug (StartingToDrain 2) world0)))) = 1
   \<and> flush_loop env_400 sender_ab world0
       = flush_loop env_400 (sender_ab\<lparr>queue := []\<rparr>)
           (snd (deliver env_400 (sender_ab\<lparr>queue := []\<rparr>) [''a'', ''b'']
              (log Debug (StartingToDrain 2) world0)))"
proof -
  have a: "1 \<le> number_of_retries (sender_ab\<lparr>queue := []\<rparr>)"
    by (simp add: sender_ab_def LogzioSender_def)
  have b: "transport env_400 (posts (log Debug (StartingToDrain 2) world0))
      (join_lines [''a'', ''b'']) = Status 400"
    by (simp add: env_400_def log_def world0_def)
  have c: "queue sender_ab \<noteq> []"
    by (simp add: sender_ab_def)
  have d: "get_messages_up_to_max_allowed_size env_400 sender_ab
      = ([''a'', ''b''], sender_ab\<lparr>queue := []\<rparr>)"
    by (simp add: get_messages_up_to_max_allowed_size_def sender_ab_def LogzioSender_def
        env_400_def env_500_def entry_size_def MAX_BULK_SIZE_IN_BYTES_def)
  from no_retry_on_400_401 [OF a disjI1 [OF b]] c d show ?thesis
    by (simp add: eval_nat_numeral)
qed

section \<open>Properties of flushing\<close>

lemma get_messages_facts:
  assumes "get_messages_up_to_max_allowed_size E s = (logs, s1)"
  shows "s1 = s\<lparr>queue := queue s1\<rparr>" and "logs @ queue s1 = queue s"
    and "queue s \<noteq> [] \<Longrightarrow> logs \<noteq> []"
proof -
  obtain b r where g: "get_messages_up_to_max_allowed_size E s = (b, s\<lparr>queue := r\<rparr>)"
    and br: "get_messages_loop E MAX_BULK_SIZE_IN_BYTES (queue s) 0 [] = (b, r)"
    using get_messages_split by blast
  from g assms have eq: "logs = b" "s1 = s\<lparr>queue := r\<rparr>" by simp_all
  show "s1 = s\<lparr>queue := queue s1\<rparr>" using eq by simp
  show "logs @ queue s1 = queue s" using loop_prefix [OF br] eq by simp
  show "logs \<noteq> []" if "queue s \<noteq> []" using loop_extends [OF br] that eq by auto
qed

lemma flush_loop_induct2 [consumes 0, case_names Empty Raise BackedUp Next]:
  assumes empty: "\<And>s w. queue s = [] \<Longrightarrow> P s w (Inr (s, w))"
    and raise: "\<And>s w logs s1 w2 e w3. queue s \<noteq> [] \<Longrightarrow>
        get_messages_up_to_max_allowed_size E s = (logs, s1) \<Longrightarrow>
        deliver E s1 logs (log Debug (StartingToDrain (length logs)) w) = (Exhausted, w2) \<Longrightarrow>
        backup_logs s1 \<Longrightarrow>
        backup_logs_fn E logs (log Error (CouldNotSend (number_of_retries s1)) w2) = Inl (e, w3) \<Longrightarrow>
        P s w (Inl (e, s1, w3))"
    and backed: "\<And>s w logs s1 w2 w3. queue s \<noteq> [] \<Longrightarrow>
        get_messages_up_to_max_allowed_size E s = (logs, s1) \<Longrightarrow>
        deliver E s1 logs (log Debug (StartingToDrain (length logs)) w) = (Exhausted, w2) \<Longrightarrow>
        backup_logs s1 \<Longrightarrow>
        backup_logs_fn E logs (log Error (CouldNotSend (number_of_retries s1)) w2) = Inr w3 \<Longrightarrow>
        P s1 w3 (flush_loop E s1 w3) \<Longrightarrow> P s w (flush_loop E s1 w3)"
    and "next": "\<And>s w logs s1 out w2. queue s \<noteq> [] \<Longrightarrow>
        get_messages_up_to_max_allowed_size E s = (logs, s1) \<Longrightarrow>
        deliver E s1 logs (log Debug (StartingToDrain (length logs)) w) = (out, w2) \<Longrightarrow>
        \<not> (out = Exhausted \<and> backup_logs s1) \<Longrightarrow>
        P s1 w2 (flush_loop E s1 w2) \<Longrightarrow> P s w (flush_loop E s1 w2)"
  shows "P s w (flush_loop E s w)"
proof (induction "length (queue s)" arbitrary: s w rule: less_induct)
  case less
  show ?case
  proof (cases "queue s = []")
    case True
    then show ?thesis using empty by (subst flush_loop.simps) simp
  next
    case False
    obtain logs s1 where g: "get_messages_up_to_max_allowed_size E s = (logs, s1)"
      by (cases "get_messages_up_to_max_allowed_size E s")
    have "length (queue s1) < length (queue s)"
      using get_messages_facts(2,3) [OF g] False
      by (metis length_append length_greater_0_conv less_add_same_cancel2)
    note IH = less [OF this]
    obtain out w2 where d: "deliver E s1 logs (log Debug (StartingToDrain (length logs)) w) = (out, w2)"
      by (cases "deliver E s1 logs (log Debug (StartingToDrain (length logs)) w)")
    show ?thesis
    proof (cases "out = Exhausted \<and> backup_logs s1")
      case no: False
      then have eq: "flush_loop E s w = flush_loop E s1 w2"
        using False g d by (subst flush_loop.simps) (auto simp: should_backup_to_disk_def)
      from "next" [OF False g d no IH] eq show ?thesis by simp
    next
      case yes: True
      then have d': "deliver E s1 logs (log Debug (StartingToDrain (length logs)) w) = (Exhausted, w2)"
        and b: "backup_logs s1" using d by simp_all
      show ?thesis
      proof (cases "backup_logs_fn E logs (log Error (CouldNotSend (number_of_retries s1)) w2)")
        case (Inl a)
        obtain e w3 where a: "a = (e, w3)" by (cases a)
        have eq: "flush_loop E s w = Inl (e, s1, w3)"
          using False g d yes Inl a by (subst flush_loop.simps) (simp add: should_backup_to_disk_def)
        from raise [OF False g d' b Inl [unfolded a]] eq show ?thesis by simp
      next
        case (Inr w3)
        have eq: "flush_loop E s w = flush_loop E s1 w3"
          using False g d yes Inr by (subst flush_loop.simps) (simp add: should_backup_to_disk_def)
        from backed [OF False g d' b Inr IH] eq show ?thesis by simp
      qed
    qed
  qed
qed


lemma send_loop_trace:
  "\<exists>ev. trace (snd (send_loop E s logs n cur w)) = trace w @ ev
     \<and> count_flushes ev = 0 \<and> count_drain_sleeps ev = 0"
proof (induction n arbitrary: cur w)
  case 0
  then show ?case by (simp add: count_flushes_def count_drain_sleeps_def)
next
  case (Suc n)
  let ?resp = "transport E (posts w) (join_lines logs)"
  let ?w1 = "\<lambda>r. emit (Post logs r) (w\<lparr>posts := Suc (posts w)\<rparr>)"
  have stop: "\<exists>ev. trace (log l m (?w1 r)) = trace w @ ev
     \<and> count_flushes ev = 0 \<and> count_drain_sleeps ev = 0" for l m r
    by (simp add: log_def emit_def count_flushes_def count_drain_sleeps_def)
  have again: "\<exists>ev. trace (snd (send_loop E s logs n (Suc cur)
        (emit (RetrySleep (retry_timeout s)) (log l m (?w1 r))))) = trace w @ ev
     \<and> count_flushes ev = 0 \<and> count_drain_sleeps ev = 0" for l m r
  proof -
    from Suc [of "Suc cur" "emit (RetrySleep (retry_timeout s)) (log l m (?w1 r))"]
    obtain ev where ev: "trace (snd (send_loop E s logs n (Suc cur)
        (emit (RetrySleep (retry_timeout s)) (log l m (?w1 r)))))
        = trace (emit (RetrySleep (retry_timeout s)) (log l m (?w1 r))) @ ev"
      "count_flushes ev = 0" "count_drain_sleeps ev = 0" by blast
    let ?ev = "[Post logs r, Log l m, RetrySleep (retry_timeout s)] @ ev"
    have "trace (snd (send_loop E s logs n (Suc cur)
        (emit (RetrySleep (retry_timeout s)) (log l m (?w1 r))))) = trace w @ ?ev"
      using ev(1) by (simp add: log_def emit_def)
    moreover have "count_flushes ?ev = 0" "count_drain_sleeps ?ev = 0"
      using ev(2,3) by (simp_all add: count_flushes_def count_drain_sleeps_def)
    ultimately show ?thesis by blast
  qed
  show ?case
  proof (cases ?resp)
    case Fault
    then show ?thesis using again by (simp add: Let_def)
  next
    case (Status c)
    then show ?thesis using again stop by (simp add: Let_def)
  qed
qed

lemma deliver_trace:
  assumes "deliver E s logs w = (out, w')"
  shows "\<exists>ev. trace w' = trace w @ ev \<and> count_flushes ev = 0 \<and> count_drain_sleeps ev = 0"
  using send_loop_trace [of E s logs "nat (number_of_retries s)" 0 w] assms
  by (simp add: deliver_def)

lemma backup_trace:
  assumes "backup_logs_fn E logs w = r"
  shows "\<exists>ev. trace (case r of Inl (e, w') \<Rightarrow> w' | Inr w' \<Rightarrow> w') = trace w @ ev
     \<and> count_flushes ev = 0 \<and> count_drain_sleeps ev = 0"
  using assms
  by (auto simp: backup_logs_fn_def Let_def log_def count_flushes_def count_drain_sleeps_def)

lemma quiet_trans:
  assumes "trace w1 = trace w @ ev1" "count_flushes ev1 = 0" "count_drain_sleeps ev1 = 0"
    and "trace w2 = trace w1 @ ev2" "count_flushes ev2 = 0" "count_drain_sleeps ev2 = 0"
  shows "\<exists>ev. trace w2 = trace w @ ev \<and> count_flushes ev = 0 \<and> count_drain_sleeps ev = 0"
proof -
  have "trace w2 = trace w @ (ev1 @ ev2)" using assms by simp
  moreover have "count_flushes (ev1 @ ev2) = 0" "count_drain_sleeps (ev1 @ ev2) = 0"
    using assms by (simp_all add: count_flushes_def count_drain_sleeps_def)
  ultimately show ?thesis by blast
qed

lemma flush_loop_trace:
  "\<exists>ev. trace (result_world (flush_loop E s w)) = trace w @ ev
     \<and> count_flushes ev = 0 \<and> count_drain_sleeps ev = 0"
proof (induction s w rule: flush_loop_induct2 [where E = E])
  case (Empty s w)
  then show ?case by (simp add: result_world_def count_flushes_def count_drain_sleeps_def)
next
  case (Raise s w logs s1 w2 e w3)
  let ?w0 = "log Debug (StartingToDrain (length logs)) w"
  let ?w2' = "log Error (CouldNotSend (number_of_retries s1)) w2"
  have a: "trace ?w0 = trace w @ [Log Debug (StartingToDrain (length logs))]"
    by (simp add: log_def)
  from deliver_trace [OF Raise(3)] obtain ev1 where
    b: "trace w2 = trace ?w0 @ ev1" "count_flushes ev1 = 0" "count_drain_sleeps ev1 = 0" by blast
  from backup_trace [OF Raise(5)] obtain ev2 where
    c: "trace w3 = trace ?w2' @ ev2" "count_flushes ev2 = 0" "count_drain_sleeps ev2 = 0" by auto
  let ?ev = "Log Debug (StartingToDrain (length logs)) # ev1
     @ Log Error (CouldNotSend (number_of_retries s1)) # ev2"
  have "trace w3 = trace w @ ?ev" using a b(1) c(1) by (simp add: log_def)
  moreover have "count_flushes ?ev = 0" "count_drain_sleeps ?ev = 0"
    using b c by (simp_all add: count_flushes_def count_drain_sleeps_def)
  ultimately show ?case unfolding result_world_def by (metis (mono_tags, lifting) old.sum.simps(5) split_conv)
next
  case (BackedUp s w logs s1 w2 w3)
  let ?w0 = "log Debug (StartingToDrain (length logs)) w"
  let ?w2' = "log Error (CouldNotSend (number_of_retries s1)) w2"
  have a: "trace ?w0 = trace w @ [Log Debug (StartingToDrain (length logs))]"
    by (simp add: log_def)
  from deliver_trace [OF BackedUp(3)] obtain ev1 where
    b: "trace w2 = trace ?w0 @ ev1" "count_flushes ev1 = 0" "count_drain_sleeps ev1 = 0" by blast
  from backup_trace [OF BackedUp(5)] obtain ev2 where
    c: "trace w3 = trace ?w2' @ ev2" "count_flushes ev2 = 0" "count_drain_sleeps ev2 = 0" by auto
  let ?ev = "Log Debug (StartingToDrain (length logs)) # ev1
     @ Log Error (CouldNotSend (number_of_retries s1)) # ev2"
  have "trace w3 = trace w @ ?ev" using a b(1) c(1) by (simp add: log_def)
  moreover have "count_flushes ?ev = 0" "count_drain_sleeps ?ev = 0"
    using b c by (simp_all add: count_flushes_def count_drain_sleeps_def)
  ultimately show ?case using quiet_trans BackedUp(6) by blast
next
  case (Next s w logs s1 out w2)
  let ?w0 = "log Debug (StartingToDrain (length logs)) w"
  have a: "trace ?w0 = trace w @ [Log Debug (StartingToDrain (length logs))]"
    by (simp add: log_def)
  from deliver_trace [OF Next(3)] obtain ev1 where
    b: "trace w2 = trace ?w0 @ ev1" "count_flushes ev1 = 0" "count_drain_sleeps ev1 = 0" by blast
  let ?ev = "Log Debug (StartingToDrain (length logs)) # ev1"
  have "trace w2 = trace w @ ?ev" using a b(1) by simp
  moreover have "count_flushes ?ev = 0" "count_drain_sleeps ?ev = 0"
    using b by (simp_all add: count_flushes_def count_drain_sleeps_def)
  ultimately show ?case using quiet_trans Next(5) by blast
qed


lemma flush_swallowing_trace:
  "\<exists>ev. trace (snd (flush_swallowing E s w)) = trace w @ ev
     \<and> count_flushes ev = 1 \<and> count_drain_sleeps ev = 0"
proof -
  let ?r = "flush_loop E s (emit CallFlush w)"
  from flush_loop_trace [of E s "emit CallFlush w"] obtain ev where
    ev: "trace (result_world ?r) = trace (emit CallFlush w) @ ev"
      "count_flushes ev = 0" "count_drain_sleeps ev = 0" by blast
  show ?thesis
  proof (cases ?r)
    case (Inr b)
    obtain s' w' where b: "b = (s', w')" by (cases b)
    have "trace (snd (flush_swallowing E s w)) = trace w @ (CallFlush # ev)"
      using ev(1) Inr b by (simp add: flush_swallowing_def flush_queue_def result_world_def emit_def)
    moreover have "count_flushes (CallFlush # ev) = 1" "count_drain_sleeps (CallFlush # ev) = 0"
      using ev(2,3) by (simp_all add: count_flushes_def count_drain_sleeps_def)
    ultimately show ?thesis by blast
  next
    case (Inl a)
    obtain e s' w' where a: "a = (e, s', w')" by (cases a)
    let ?ev = "CallFlush # ev @ [Log Debug (Swallowing e)]"
    have "trace (snd (flush_swallowing E s w)) = trace w @ ?ev"
      using ev(1) Inl a
      by (simp add: flush_swallowing_def flush_queue_def result_world_def emit_def log_def)
    moreover have "count_flushes ?ev = 1" "count_drain_sleeps ?ev = 0"
      using ev(2,3) by (simp_all add: count_flushes_def count_drain_sleeps_def)
    ultimately show ?thesis by blast
  qed
qed

section \<open>Properties of the drain loop\<close>

text \<open>
  Claim C5. In the iteration in which \<^verbatim>\<open>_drain_queue\<close> finds the main thread ended, it
  logs that, calls \<^verbatim>\<open>_flush_queue\<close> exactly once more, does not sleep for
  \<^verbatim>\<open>logs_drain_timeout\<close> after it, and returns: the loop and with it the thread have
  ended, whatever fuel is left.
\<close>

theorem shutdown_drain:
  assumes "\<not> main_alive E i"
  shows "\<exists>s' w'. drain_queue (Suc fuel) E i s w = Some (s', w')
     \<and> \<not> sending_thread_alive s'
     \<and> hd (events_since w w') = Log Debug IdentifiedQuit
     \<and> count_flushes (events_since w w') = 1
     \<and> count_drain_sleeps (events_since w w') = 0"
proof -
  let ?w1 = "log Debug IdentifiedQuit w"
  obtain s2 w2 where f: "flush_swallowing E s ?w1 = (s2, w2)"
    by (cases "flush_swallowing E s ?w1")
  from flush_swallowing_trace [of E s ?w1] f obtain ev where
    ev: "trace w2 = trace ?w1 @ ev" "count_flushes ev = 1" "count_drain_sleeps ev = 0"
    by auto
  have d: "drain_queue (Suc fuel) E i s w = Some (s2\<lparr>sending_thread_alive := False\<rparr>, w2)"
    using assms f by (simp add: Let_def)
  have t: "trace w2 = trace w @ (Log Debug IdentifiedQuit # ev)"
    using ev(1) by (simp add: log_def)
  have "events_since w w2 = Log Debug IdentifiedQuit # ev"
    using t by (simp add: events_since_def)
  then show ?thesis using d ev(2,3)
    by (simp add: count_flushes_def count_drain_sleeps_def)
qed

theorem shutdown_drain_witness:
  "\<not> main_alive env_500 0
   \<and> (\<exists>s' w'. drain_queue (Suc 0) env_500 0 sender_ab world0 = Some (s', w')
        \<and> \<not> sending_thread_alive s'
        \<and> count_flushes (events_since world0 w') = 1
        \<and> count_drain_sleeps (events_since world0 w') = 0)"
  using shutdown_drain [of env_500 0 0 sender_ab world0]
  by (auto simp: env_500_def)

text \<open>The whole life of the loop: when the main thread is first found ended in iteration
  \<open>k\<close>, the loop returns after \<open>k + 1\<close> flushes and \<open>k\<close> sleeps.\<close>

lemma drain_counts:
  assumes "\<forall>j<k. main_alive E (i + j)" and "\<not> main_alive E (i + k)"
  shows "\<exists>s' w' ev. drain_queue (Suc k + fuel) E i s w = Some (s', w')
     \<and> trace w' = trace w @ ev \<and> count_flushes ev = Suc k \<and> count_drain_sleeps ev = k
     \<and> \<not> sending_thread_alive s'"
  using assms
proof (induction k arbitrary: i s w)
  case 0
  let ?w1 = "log Debug IdentifiedQuit w"
  obtain s2 w2 where f: "flush_swallowing E s ?w1 = (s2, w2)"
    by (cases "flush_swallowing E s ?w1")
  from flush_swallowing_trace [of E s ?w1] f obtain ev where
    ev: "trace w2 = trace ?w1 @ ev" "count_flushes ev = 1" "count_drain_sleeps ev = 0"
    by auto
  have "drain_queue (Suc 0 + fuel) E i s w = Some (s2\<lparr>sending_thread_alive := False\<rparr>, w2)"
    using 0 f by (simp add: Let_def)
  moreover have "trace w2 = trace w @ (Log Debug IdentifiedQuit # ev)"
    using ev(1) by (simp add: log_def)
  moreover have "count_flushes (Log Debug IdentifiedQuit # ev) = Suc 0"
    "count_drain_sleeps (Log Debug IdentifiedQuit # ev) = 0"
    using ev(2,3) by (simp_all add: count_flushes_def count_drain_sleeps_def)
  ultimately show ?case by force
next
  case (Suc k)
  have alive: "main_alive E i" using Suc.prems(1) by (metis add.right_neutral zero_less_Suc)
  obtain s2 w2 where f: "flush_swallowing E s w = (s2, w2)"
    by (cases "flush_swallowing E s w")
  from flush_swallowing_trace [of E s w] f obtain ev where
    ev: "trace w2 = trace w @ ev" "count_flushes ev = 1" "count_drain_sleeps ev = 0"
    by auto
  let ?w3 = "emit (DrainSleep (logs_drain_timeout s2)) w2"
  have step: "drain_queue (Suc (Suc k) + fuel) E i s w = drain_queue (Suc k + fuel) E (Suc i) s2 ?w3"
    using alive f by (simp add: Let_def)
  have "\<forall>j<k. main_alive E (Suc i + j)" "\<not> main_alive E (Suc i + k)"
    using Suc.prems by (metis add_Suc_shift Suc_less_eq, simp)
  from Suc.IH [OF this, of s2 ?w3] obtain s' w' ev' where
    r: "drain_queue (Suc k + fuel) E (Suc i) s2 ?w3 = Some (s', w')"
      "trace w' = trace ?w3 @ ev'" "count_flushes ev' = Suc k" "count_drain_sleeps ev' = k"
      "\<not> sending_thread_alive s'" by blast
  let ?ev = "ev @ DrainSleep (logs_drain_timeout s2) # ev'"
  have "trace w' = trace w @ ?ev"
    using r(2) ev(1) by (simp add: emit_def)
  moreover have "count_flushes ?ev = Suc (Suc k)" "count_drain_sleeps ?ev = Suc k"
    using r(3,4) ev(2,3) by (simp_all add: count_flushes_def count_drain_sleeps_def)
  ultimately show ?case using step r(1,5) by metis
qed

section \<open>The byte cap\<close>

text \<open>
  Claim C10. The cap of the batch assembler is the constant 1048576 for every sender:
  what \<^verbatim>\<open>_get_messages_up_to_max_allowed_size\<close> takes off a queue is what the loop takes
  under that cap, and two senders built with any constructor arguments split the same
  queue content in the same way.
\<close>

theorem fixed_byte_cap:
  "MAX_BULK_SIZE_IN_BYTES = 1048576
   \<and> fst (get_messages_up_to_max_allowed_size E s)
       = fst (get_messages_loop E 1048576 (queue s) 0 [])
   \<and> queue (snd (get_messages_up_to_max_allowed_size E s))
       = snd (get_messages_loop E 1048576 (queue s) 0 [])
   \<and> fst (get_messages_up_to_max_allowed_size E
         ((LogzioSender tok u drain dbg backup nt retries rt)\<lparr>queue := q\<rparr>))
       = fst (get_messages_up_to_max_allowed_size E
         ((LogzioSender tok' u' drain' dbg' backup' nt' retries' rt')\<lparr>queue := q\<rparr>))
   \<and> queue (snd (get_messages_up_to_max_allowed_size E
         ((LogzioSender tok u drain dbg backup nt retries rt)\<lparr>queue := q\<rparr>)))
       = queue (snd (get_messages_up_to_max_allowed_size E
         ((LogzioSender tok' u' drain' dbg' backup' nt' retries' rt')\<lparr>queue := q\<rparr>)))"
  by (simp add: get_messages_up_to_max_allowed_size_def MAX_BULK_SIZE_IN_BYTES_def
      LogzioSender_def split: prod.splits)

section \<open>Properties of append\<close>

text \<open>The only exception of the serialiser is \<^verbatim>\<open>TypeError\<close>.\<close>

lemma dumps_error:
  "(dumps m = Inl e \<longrightarrow> e = TypeError)"
  "(dumps_list ms = Inl e \<longrightarrow> e = TypeError)"
  "(dumps_items kvs = Inl e \<longrightarrow> e = TypeError)"
  by (induction m and ms and kvs rule: dumps_dumps_list_dumps_items.induct)
     (auto simp: encode_default_def split: sum.splits)

text \<open>
  Claim C6, as stated, fails: a message holding an object that the encoder has no rule
  for makes \<^verbatim>\<open>append\<close> raise \<^verbatim>\<open>TypeError\<close> to its caller, and nothing is enqueued.
\<close>

theorem append_raises_counterexample:
  "append (PyDict [(''extra'', PyOther)]) sender_ab = Inl (TypeError, sender_ab)"
  by (simp add: append_def encode_default_def sender_ab_def LogzioSender_def)

text \<open>
  Claim C6, amended. For every message that \<^verbatim>\<open>json.dumps\<close> with \<^verbatim>\<open>CustomJSONEncoder\<close>
  serialises, \<^verbatim>\<open>append\<close> does not raise and does not wait for delivery: it starts the
  sending thread if it was dead, puts the serialised entry at the back of the queue, and
  does nothing to the world (no POST, no sleep, no file), so a delivery failure shows
  only later, in the logs and backup files.
\<close>

theorem append_fire_and_forget:
  assumes "dumps m = Inr entry"
  shows "append m s = Inr (s\<lparr>queue := queue s @ [entry], sending_thread_alive := True\<rparr>)
     \<and> step E (Append m) (s, w)
         = (s\<lparr>queue := queue s @ [entry], sending_thread_alive := True\<rparr>, w)"
  using assms by (cases "sending_thread_alive s") (simp_all add: append_def)

theorem append_fire_and_forget_witness:
  "append (PyDict [(''message'', PyStr ''hi'')]) sender_ab
     = Inr (sender_ab\<lparr>queue := queue sender_ab @ [''{'' @ [CHR 0x22] @ ''message'' @ [CHR 0x22] @ '': '' @ [CHR 0x22] @ ''hi'' @ [CHR 0x22] @ ''}''],
         sending_thread_alive := True\<rparr>)"
  using append_fire_and_forget [of "PyDict [(''message'', PyStr ''hi'')]" _ sender_ab]
  by (simp add: encode_str_def escape_char_def)

text \<open>A message that cannot be serialised raises \<^verbatim>\<open>TypeError\<close>, after the thread check.\<close>

lemma append_raises:
  assumes "dumps m = Inl e"
  shows "append m s = Inl (TypeError, s\<lparr>sending_thread_alive := True\<rparr>)"
  using assms dumps_error(1) [of m e] by (cases "sending_thread_alive s") (simp_all add: append_def)

section \<open>Backup files\<close>

lemmas scenario_defs = sender_fast_def LogzioSender_def env_500_def world0_def flush_def
  flush_queue_def flush_loop.simps get_messages_up_to_max_allowed_size_def entry_size_def
  MAX_BULK_SIZE_IN_BYTES_def deliver_def should_backup_to_disk_def backup_logs_fn_def
  backup_file_name_def file_content_def result_world_def emit_def log_def Let_def newline_def

text \<open>A backup that opens its file writes once; into a file that did not exist, it
  writes the batch's entries joined by newlines.\<close>

lemma backup_fresh_file:
  assumes "\<not> open_fails E (backups w)"
    and "files w (backup_file_name (clock E (backups w))) = None"
  shows "\<exists>w'. backup_logs_fn E logs w = Inr w' \<and> backups w' = Suc (backups w)
     \<and> file_content w' (backup_file_name (clock E (backups w))) = join_lines logs"
  using assms by (simp add: backup_logs_fn_def Let_def log_def file_content_def)

text \<open>
  Claim C7 on a collision of time stamps. Two batches, \<open>a, b\<close> and then \<open>c, d\<close>, are
  exhausted within the same second (one try, no pause) with backup enabled. Each is
  written once, but \<^verbatim>\<open>backup_logs\<close> writes no newline after the last entry of a batch,
  so the second write continues the last line of the first: the file holds the three
  lines \<open>a\<close>, \<open>bc\<close>, \<open>d\<close>, not one entry per line.
\<close>

theorem backup_collision:
  "split_lines (file_content
      (result_world (flush env_500 (sender_fast [''c'', ''d''])
         (result_world (flush env_500 (sender_fast [''a'', ''b'']) world0))))
      (backup_file_name ''01012026-000000''))
   = [''a'', ''bc'', ''d'']"
  by (simp add: scenario_defs)

text \<open>
  Claim C8, as stated, fails for a direct caller of \<^verbatim>\<open>flush()\<close>: when the backup file
  cannot be opened, the exception leaves \<^verbatim>\<open>flush\<close>.
\<close>

theorem flush_raises_counterexample:
  "flush env_500_no_disk (sender_fast [''a'', ''b'']) world0
   = Inl (OSError, sender_fast [],
       \<lparr> posts = 1, backups = 1, files = Map.empty,
         trace = [CallFlush, Log Debug (StartingToDrain 2), Post [''a'', ''b''] (Status 500),
           Log Info (GotStatus 500 1 1), RetrySleep 0, Log Error (CouldNotSend 1),
           Log Info (BackingUp ''01012026-000000'')] \<rparr>)"
  by (simp add: scenario_defs env_500_no_disk_def)

lemma backup_raises:
  assumes "backup_logs_fn E logs w = Inl (e, w')"
  shows "e = OSError" and "files w' = files w" and "open_fails E (backups w)"
    and "backups w' = Suc (backups w)"
    and "trace w' = trace w @ [Log Info (BackingUp (clock E (backups w)))]"
  using assms by (auto simp: backup_logs_fn_def Let_def log_def split: if_splits)

lemma get_messages_same:
  assumes "get_messages_up_to_max_allowed_size E s = (logs, s1)"
  shows "s1\<lparr>queue := queue s\<rparr> = s"
proof -
  obtain b r where "get_messages_up_to_max_allowed_size E s = (b, s\<lparr>queue := r\<rparr>)"
    using get_messages_split by blast
  with assms have "s1 = s\<lparr>queue := r\<rparr>" by simp
  then show ?thesis by simp
qed

lemma same_config_trans:
  assumes "s'\<lparr>queue := queue s1\<rparr> = s1" and "s1\<lparr>queue := queue s\<rparr> = s"
  shows "s'\<lparr>queue := queue s\<rparr> = s"
proof -
  have "s'\<lparr>queue := queue s\<rparr> = (s'\<lparr>queue := queue s1\<rparr>)\<lparr>queue := queue s\<rparr>" by simp
  also have "\<dots> = s" by (simp only: assms)
  finally show ?thesis .
qed

lemma raised_ok_step:
  assumes g: "get_messages_up_to_max_allowed_size E s = (logs, s1)"
    and ih: "raised_ok E s1 r"
  shows "raised_ok E s r"
proof (cases r)
  case (Inr x)
  then show ?thesis by (simp add: raised_ok_def)
next
  case (Inl a)
  obtain e s' w' where a: "a = (e, s', w')" by (cases a)
  from ih Inl a have i: "e = OSError" "s'\<lparr>queue := queue s1\<rparr> = s1"
    "\<exists>done batch. queue s1 = done @ batch @ queue s' \<and> batch \<noteq> []"
    "0 < backups w'" "open_fails E (backups w' - 1)"
    "last (trace w') = Log Info (BackingUp (clock E (backups w' - 1)))"
    by (simp_all add: raised_ok_def)
  from i(3) obtain d b where db: "queue s1 = d @ b @ queue s'" "b \<noteq> []" by blast
  have "queue s = (logs @ d) @ b @ queue s'"
    using get_messages_facts(2) [OF g] db(1) by simp
  with db(2) have q: "\<exists>done batch. queue s = done @ batch @ queue s' \<and> batch \<noteq> []" by blast
  have c: "s'\<lparr>queue := queue s\<rparr> = s"
    using same_config_trans [OF i(2) get_messages_same [OF g]] .
  show ?thesis unfolding raised_ok_def Inl a using i(1,4,5,6) q c by simp
qed

lemma flush_loop_raises: "raised_ok E s (flush_loop E s w)"
proof (induction s w rule: flush_loop_induct2 [where E = E])
  case (Empty s w)
  then show ?case by (simp add: raised_ok_def)
next
  case (Raise s w logs s1 w2 e w3)
  note b = backup_raises [OF Raise(5)]
  have "queue s = [] @ logs @ queue s1 \<and> logs \<noteq> []"
    using get_messages_facts(2) [OF Raise(2)] get_messages_facts(3) [OF Raise(2) Raise(1)] by simp
  then have q: "\<exists>done batch. queue s = done @ batch @ queue s1 \<and> batch \<noteq> []" by blast
  have c: "s1\<lparr>queue := queue s\<rparr> = s" using get_messages_same [OF Raise(2)] .
  have l: "last (trace w3) = Log Info (BackingUp (clock E (backups w3 - 1)))"
    using b(4,5) by simp
  have o: "open_fails E (backups w3 - 1)" "0 < backups w3" using b(3,4) by simp_all
  show ?case unfolding raised_ok_def using b(1) q c l o by simp
next
  case (BackedUp s w logs s1 w2 w3)
  from raised_ok_step [OF BackedUp(2) BackedUp(6)] show ?case .
next
  case (Next s w logs s1 out w2)
  from raised_ok_step [OF Next(2) Next(5)] show ?case .
qed

text \<open>
  Claim C8, amended. When writing the backup file fails, the sending thread's loop
  catches the exception, logs it at debug level and goes on to its sleep and its next
  iteration; a direct call of \<^verbatim>\<open>flush()\<close> passes the exception to its caller; the
  exception is the \<^verbatim>\<open>OSError\<close> of the file that would not open; and the batch whose
  backup failed has left the queue, the entries behind it staying queued.
\<close>

theorem fallback_write_fault:
  assumes "flush_queue E s w = Inl (e, s', w')"
  shows "e = OSError
     \<and> open_fails E (backups w' - 1)
     \<and> flush E s w = Inl (e, s', w')
     \<and> flush_swallowing E s w = (s', log Debug (Swallowing e) w')
     \<and> (main_alive E i \<longrightarrow>
          drain_queue (Suc fuel) E i s w
          = drain_queue fuel E (Suc i) s'
              (emit (DrainSleep (logs_drain_timeout s')) (log Debug (Swallowing e) w')))
     \<and> (\<exists>done batch. queue s = done @ batch @ queue s' \<and> batch \<noteq> [])"
proof -
  from assms have r: "flush_loop E s (emit CallFlush w) = Inl (e, s', w')"
    by (simp add: flush_queue_def)
  from flush_loop_raises [of E s "emit CallFlush w"] r
  have f: "e = OSError" "open_fails E (backups w' - 1)"
    "\<exists>done batch. queue s = done @ batch @ queue s' \<and> batch \<noteq> []"
    by (simp_all add: raised_ok_def)
  have sw: "flush_swallowing E s w = (s', log Debug (Swallowing e) w')"
    using assms by (simp add: flush_swallowing_def)
  have "drain_queue (Suc fuel) E i s w
          = drain_queue fuel E (Suc i) s'
              (emit (DrainSleep (logs_drain_timeout s')) (log Debug (Swallowing e) w'))"
    if "main_alive E i"
    using that sw by (simp add: Let_def)
  then show ?thesis using f sw assms by (simp add: flush_def)
qed

theorem fallback_write_fault_witness:
  "flush_swallowing (env_500_no_disk\<lparr>main_alive := (\<lambda>i. True)\<rparr>) (sender_fast [''a'', ''b'']) world0
   = (sender_fast [],
       log Debug (Swallowing OSError)
       \<lparr> posts = 1, backups = 1, files = Map.empty,
         trace = [CallFlush, Log Debug (StartingToDrain 2), Post [''a'', ''b''] (Status 500),
           Log Info (GotStatus 500 1 1), RetrySleep 0, Log Error (CouldNotSend 1),
           Log Info (BackingUp ''01012026-000000'')] \<rparr>)
   \<and> drain_queue (Suc 0) (env_500_no_disk\<lparr>main_alive := (\<lambda>i. True)\<rparr>) 0
        (sender_fast [''a'', ''b'']) world0 = None"
proof -
  have "flush_queue (env_500_no_disk\<lparr>main_alive := (\<lambda>i. True)\<rparr>) (sender_fast [''a'', ''b'']) world0
   = Inl (OSError, sender_fast [],
       \<lparr> posts = 1, backups = 1, files = Map.empty,
         trace = [CallFlush, Log Debug (StartingToDrain 2), Post [''a'', ''b''] (Status 500),
           Log Info (GotStatus 500 1 1), RetrySleep 0, Log Error (CouldNotSend 1),
           Log Info (BackingUp ''01012026-000000'')] \<rparr>)"
    by (simp add: scenario_defs env_500_no_disk_def)
  from fallback_write_fault [OF this, of 0 0] show ?thesis by simp
qed

section \<open>Order of delivery\<close>

lemma delivered_append: "delivered (xs @ ys) = delivered xs @ delivered ys"
  by (induction xs rule: delivered.induct) simp_all

lemma get_messages_retries:
  assumes "get_messages_up_to_max_allowed_size E s = (logs, s1)"
  shows "number_of_retries s1 = number_of_retries s" and "s1\<lparr>queue := []\<rparr> = s\<lparr>queue := []\<rparr>"
    and "retry_timeout s1 = retry_timeout s"
proof -
  obtain b r where "get_messages_up_to_max_allowed_size E s = (b, s\<lparr>queue := r\<rparr>)"
    using get_messages_split by blast
  with assms have "s1 = s\<lparr>queue := r\<rparr>" by simp
  then show "number_of_retries s1 = number_of_retries s" "s1\<lparr>queue := []\<rparr> = s\<lparr>queue := []\<rparr>"
    "retry_timeout s1 = retry_timeout s"
    by simp_all
qed

lemma send_loop_config:
  assumes "number_of_retries s1 = number_of_retries s" and "retry_timeout s1 = retry_timeout s"
  shows "send_loop E s1 logs n cur w = send_loop E s logs n cur w"
  using assms
  by (induction n arbitrary: cur w) (simp_all add: Let_def split: response.splits)

lemma deliver_config:
  assumes "number_of_retries s1 = number_of_retries s" and "retry_timeout s1 = retry_timeout s"
  shows "deliver E s1 logs w = deliver E s logs w"
  using send_loop_config [OF assms] assms(1) by (simp add: deliver_def)

lemma send_loop_delivered:
  "\<exists>ev. trace (snd (send_loop E s logs n cur w)) = trace w @ ev
     \<and> delivered ev = (if fst (send_loop E s logs n cur w) = Delivered then logs else [])"
proof (induction n arbitrary: cur w)
  case 0
  then show ?case by simp
next
  case (Suc n)
  let ?resp = "transport E (posts w) (join_lines logs)"
  let ?w1 = "emit (Post logs ?resp) (w\<lparr>posts := Suc (posts w)\<rparr>)"
  have again: "\<exists>ev. trace (snd (send_loop E s logs n (Suc cur)
        (emit (RetrySleep (retry_timeout s)) (log l m ?w1)))) = trace w @ ev
     \<and> delivered ev = (if fst (send_loop E s logs n (Suc cur)
        (emit (RetrySleep (retry_timeout s)) (log l m ?w1))) = Delivered then logs else [])"
    if "transient ?resp" for l m
  proof -
    let ?w2 = "emit (RetrySleep (retry_timeout s)) (log l m ?w1)"
    from Suc [of "Suc cur" ?w2] obtain ev where
      ev: "trace (snd (send_loop E s logs n (Suc cur) ?w2)) = trace ?w2 @ ev"
        "delivered ev = (if fst (send_loop E s logs n (Suc cur) ?w2) = Delivered then logs else [])"
      by blast
    let ?ev = "[Post logs ?resp, Log l m, RetrySleep (retry_timeout s)] @ ev"
    have "trace (snd (send_loop E s logs n (Suc cur) ?w2)) = trace w @ ?ev"
      using ev(1) by (simp add: log_def emit_def)
    moreover have "delivered ?ev = delivered ev"
      using that by (cases ?resp) simp_all
    ultimately show ?thesis using ev(2) by metis
  qed
  show ?case
  proof (cases ?resp)
    case Fault
    then show ?thesis using again by (simp add: Let_def)
  next
    case (Status c)
    consider "c = 200" | "c = 400" | "c = 401" | "c \<noteq> 200" "c \<noteq> 400" "c \<noteq> 401" by blast
    then show ?thesis
    proof cases
      case 1
      have "trace (log Debug (SentBulk (length logs)) ?w1) = trace w @ [Post logs ?resp, Log Debug (SentBulk (length logs))]"
        by (simp add: log_def emit_def)
      moreover have "delivered [Post logs ?resp, Log Debug (SentBulk (length logs))] = logs"
        using Status 1 by simp
      ultimately show ?thesis using Status 1 by (simp add: Let_def)
    next
      case 2
      have "trace (log Info Got400 ?w1) = trace w @ [Post logs ?resp, Log Info Got400]"
        by (simp add: log_def emit_def)
      moreover have "delivered [Post logs ?resp, Log Info Got400] = []"
        using Status 2 by simp
      ultimately show ?thesis using Status 2 by (simp add: Let_def)
    next
      case 3
      have "trace (log Info NotAuthorized ?w1) = trace w @ [Post logs ?resp, Log Info NotAuthorized]"
        by (simp add: log_def emit_def)
      moreover have "delivered [Post logs ?resp, Log Info NotAuthorized] = []"
        using Status 3 by simp
      ultimately show ?thesis using Status 3 by (simp add: Let_def)
    next
      case 4
      then have "transient ?resp" using Status by simp
      from again [OF this] show ?thesis using Status 4 by (simp add: Let_def)
    qed
  qed
qed

lemma deliver_delivered:
  assumes "deliver E s logs w = (Delivered, w')"
  shows "delivered (trace w') = delivered (trace w) @ logs"
  using send_loop_delivered [of E s logs "nat (number_of_retries s)" 0 w] assms
  by (auto simp: deliver_def delivered_append)

lemma flush_loop_all_ok:
  assumes ok: "\<forall>logs w0. fst (deliver E s0 logs w0) = Delivered"
  shows "number_of_retries s = number_of_retries s0 \<and> retry_timeout s = retry_timeout s0
     \<longrightarrow> all_delivered s w (flush_loop E s w)"
proof (induction s w rule: flush_loop_induct2 [where E = E])
  case (Empty s w)
  then show ?case by (simp add: all_delivered_def)
next
  case (Raise s w logs s1 w2 e w3)
  show ?case
  proof
    assume c: "number_of_retries s = number_of_retries s0 \<and> retry_timeout s = retry_timeout s0"
    have "number_of_retries s1 = number_of_retries s" "retry_timeout s1 = retry_timeout s"
      using get_messages_retries(1,3) [OF Raise(2)] by simp_all
    with c have "deliver E s1 logs (log Debug (StartingToDrain (length logs)) w)
        = deliver E s0 logs (log Debug (StartingToDrain (length logs)) w)"
      by (intro deliver_config) simp_all
    with ok Raise(3) have "fst (Exhausted, w2) = Delivered" by metis
    then show "all_delivered s w (Inl (e, s1, w3))" by simp
  qed
next
  case (BackedUp s w logs s1 w2 w3)
  show ?case
  proof
    assume c: "number_of_retries s = number_of_retries s0 \<and> retry_timeout s = retry_timeout s0"
    have "number_of_retries s1 = number_of_retries s" "retry_timeout s1 = retry_timeout s"
      using get_messages_retries(1,3) [OF BackedUp(2)] by simp_all
    with c have "deliver E s1 logs (log Debug (StartingToDrain (length logs)) w)
        = deliver E s0 logs (log Debug (StartingToDrain (length logs)) w)"
      by (intro deliver_config) simp_all
    with ok BackedUp(3) have "fst (Exhausted, w2) = Delivered" by metis
    then show "all_delivered s w (flush_loop E s1 w3)" by simp
  qed
next
  case (Next s w logs s1 out w2)
  show ?case
  proof
    assume c: "number_of_retries s = number_of_retries s0 \<and> retry_timeout s = retry_timeout s0"
    have c1: "number_of_retries s1 = number_of_retries s" "retry_timeout s1 = retry_timeout s"
      using get_messages_retries(1,3) [OF Next(2)] by simp_all
    let ?w0 = "log Debug (StartingToDrain (length logs)) w"
    from c c1 have "deliver E s1 logs ?w0 = deliver E s0 logs ?w0"
      by (intro deliver_config) simp_all
    with ok Next(3) have "fst (out, w2) = Delivered" by metis
    then have "out = Delivered" by simp
    with Next(3) have "delivered (trace w2) = delivered (trace ?w0) @ logs"
      using deliver_delivered by simp
    then have d2: "delivered (trace w2) = delivered (trace w) @ logs"
      by (simp add: log_def delivered_append)
    from Next(5) c c1 have ih: "all_delivered s1 w2 (flush_loop E s1 w2)" by simp
    show "all_delivered s w (flush_loop E s1 w2)"
    proof (cases "flush_loop E s1 w2")
      case (Inl a)
      with ih show ?thesis by (simp add: all_delivered_def)
    next
      case (Inr b)
      obtain s' w' where b: "b = (s', w')" by (cases b)
      from ih Inr b have i: "s' = s1\<lparr>queue := []\<rparr>"
        "delivered (trace w') = delivered (trace w2) @ queue s1"
        by (simp_all add: all_delivered_def)
      have "s' = s\<lparr>queue := []\<rparr>" using i(1) get_messages_retries(2) [OF Next(2)] by simp
      moreover have "delivered (trace w') = delivered (trace w) @ queue s"
        using i(2) d2 get_messages_facts(2) [OF Next(2)] by (metis append.assoc)
      ultimately show ?thesis by (simp add: all_delivered_def Inr b)
    qed
  qed
qed

lemma step_fifo:
  assumes ok: "\<forall>logs w0. fst (deliver E s0 logs w0) = Delivered"
    and r: "number_of_retries s = number_of_retries s0 \<and> retry_timeout s = retry_timeout s0"
    and st: "step E x (s, w) = (s', w')"
  shows "delivered (trace w') @ queue s' = delivered (trace w) @ queue s @ enqueued [x]
     \<and> number_of_retries s' = number_of_retries s0 \<and> retry_timeout s' = retry_timeout s0"
proof (cases x)
  case (Append m)
  show ?thesis
  proof (cases "dumps m")
    case (Inl e)
    with st Append r show ?thesis by (auto simp: append_def Let_def)
  next
    case (Inr entry)
    with st Append r show ?thesis by (auto simp: append_def Let_def)
  qed
next
  case Flush
  from flush_loop_all_ok [OF ok, of s "emit CallFlush w"] r
  have a: "all_delivered s (emit CallFlush w) (flush_loop E s (emit CallFlush w))" by simp
  then obtain s2 w2 where f: "flush_loop E s (emit CallFlush w) = Inr (s2, w2)"
    "s2 = s\<lparr>queue := []\<rparr>" "delivered (trace w2) = delivered (trace (emit CallFlush w)) @ queue s"
    by (cases "flush_loop E s (emit CallFlush w)") (auto simp: all_delivered_def)
  from st Flush f(1) have "s' = s2" "w' = w2" by (simp_all add: flush_def flush_queue_def)
  with f(2,3) Flush r show ?thesis by (simp add: emit_def delivered_append)
next
  case WorkerCycle
  from flush_loop_all_ok [OF ok, of s "emit CallFlush w"] r
  have a: "all_delivered s (emit CallFlush w) (flush_loop E s (emit CallFlush w))" by simp
  then obtain s2 w2 where f: "flush_loop E s (emit CallFlush w) = Inr (s2, w2)"
    "s2 = s\<lparr>queue := []\<rparr>" "delivered (trace w2) = delivered (trace (emit CallFlush w)) @ queue s"
    by (cases "flush_loop E s (emit CallFlush w)") (auto simp: all_delivered_def)
  from st WorkerCycle f(1) have "s' = s2" "w' = w2"
    by (simp_all add: flush_swallowing_def flush_queue_def)
  with f(2,3) WorkerCycle r show ?thesis by (simp add: emit_def delivered_append)
qed

lemma enqueued_append: "enqueued (x # ops) = enqueued [x] @ enqueued ops"
  by (cases x) (auto split: sum.splits)

text \<open>
  Claim C4. In every run of appends, flushes and worker cycles in which each delivery
  ends delivered (at the first try or after retries), the entries of the delivered
  batches, in the order of their POSTs, followed by the entries still queued, are
  exactly the entries enqueued, in the order of the appends: batches keep the order
  of the queue and follow one another in it, and once the queue is empty the delivered
  entries are the whole enqueue sequence.
\<close>

theorem fifo_order:
  assumes "\<forall>logs w0. fst (deliver E s logs w0) = Delivered"
    and "run E ops (s, w) = (s', w')"
  shows "delivered (trace w') @ queue s' = delivered (trace w) @ queue s @ enqueued ops"
proof -
  have "delivered (trace w') @ queue s' = delivered (trace w) @ queue s1 @ enqueued ops"
    if "number_of_retries s1 = number_of_retries s \<and> retry_timeout s1 = retry_timeout s"
      and "run E ops (s1, w) = (s', w')" for s1
    using that
  proof (induction ops arbitrary: s1 w)
    case Nil
    then show ?case by simp
  next
    case (Cons x ops)
    obtain s2 w2 where st: "step E x (s1, w) = (s2, w2)" by (cases "step E x (s1, w)")
    from step_fifo [OF assms(1) Cons.prems(1) st]
    have a: "delivered (trace w2) @ queue s2 = delivered (trace w) @ queue s1 @ enqueued [x]"
      and b: "number_of_retries s2 = number_of_retries s \<and> retry_timeout s2 = retry_timeout s"
      by simp_all
    from Cons.prems(2) st have "run E ops (s2, w2) = (s', w')" by simp
    from Cons.IH [OF b this]
    have "delivered (trace w') @ queue s' = delivered (trace w2) @ queue s2 @ enqueued ops" .
    also have "\<dots> = (delivered (trace w) @ queue s1 @ enqueued [x]) @ enqueued ops"
      using a by simp
    also have "\<dots> = delivered (trace w) @ queue s1 @ enqueued (x # ops)"
      using enqueued_append [of x ops] by simp
    finally show ?case .
  qed
  from this [of s] assms(2) show ?thesis by simp
qed

lemma enqueued_example: "enqueued ops_example = [''1'', ''2'', ''3'']"
  by (simp add: ops_example_def encode_default_def encode_int_def hex_digit_def)

theorem fifo_order_witness:
  "delivered (trace (snd (run env_flaky ops_example (sender_ab\<lparr>queue := []\<rparr>, world0))))
     @ queue (fst (run env_flaky ops_example (sender_ab\<lparr>queue := []\<rparr>, world0)))
   = [''1'', ''2'', ''3'']"
proof -
  have n4: "(4::nat) = Suc (Suc (Suc (Suc 0)))" by simp
  have "fst (deliver env_flaky (sender_ab\<lparr>queue := []\<rparr>) logs w0) = Delivered" for logs w0
    by (cases "even (posts w0)")
       (simp_all add: deliver_def sender_ab_def LogzioSender_def env_flaky_def Let_def
          n4 emit_def log_def)
  then have h: "\<forall>logs w0. fst (deliver env_flaky (sender_ab\<lparr>queue := []\<rparr>) logs w0) = Delivered"
    by blast
  obtain s' w' where r: "run env_flaky ops_example (sender_ab\<lparr>queue := []\<rparr>, world0) = (s', w')"
    by (cases "run env_flaky ops_example (sender_ab\<lparr>queue := []\<rparr>, world0)")
  from fifo_order [OF h r] have "delivered (trace w') @ queue s' = enqueued ops_example"
    by (simp add: world0_def)
  then show ?thesis
    by (simp add: r enqueued_example)
qed

end
